theory Spec2Isabelle
  imports Main "HOL-Library.Monad_Syntax"
begin

section \<open>Strings and character classes\<close>

text \<open>
  A JavaScript string is modelled as a \<^typ>\<open>string\<close>, one \<^typ>\<open>char\<close> per code unit,
  for code units below 256 (Latin-1).  The classes below are the regular-expression
  classes the source uses, restricted to that range.
\<close>

definition is_space :: "char \<Rightarrow> bool" where
  \<comment> \<open>\<^verbatim>\<open>\s\<close>, also the set \<^verbatim>\<open>String.prototype.trim\<close> removes: TAB, LF, VT, FF, CR, SP, NBSP\<close>
  "is_space c \<longleftrightarrow>
     c \<in> set [CHR 0x09, CHR 0x0A, CHR 0x0B, CHR 0x0C, CHR 0x0D, CHR 0x20, CHR 0xA0]"

definition is_word :: "char \<Rightarrow> bool" where
  \<comment> \<open>\<^verbatim>\<open>\w\<close> is \<^verbatim>\<open>[A-Za-z0-9_]\<close>\<close>
  "is_word c \<longleftrightarrow>
     c \<in> set (''abcdefghijklmnopqrstuvwxyz'' @ ''ABCDEFGHIJKLMNOPQRSTUVWXYZ'' @ ''0123456789_'')"

definition is_line_terminator :: "char \<Rightarrow> bool" where
  \<comment> \<open>the characters \<^verbatim>\<open>.\<close> does not match: LF and CR\<close>
  "is_line_terminator c \<longleftrightarrow> c = CHR 0x0A \<or> c = CHR 0x0D"

datatype cls =
    Space       \<comment> \<open>\<^verbatim>\<open>\s\<close>\<close>
  | Word        \<comment> \<open>\<^verbatim>\<open>\w\<close>\<close>
  | WordDot     \<comment> \<open>\<^verbatim>\<open>[\w.]\<close>\<close>
  | NotRParen   \<comment> \<open>\<^verbatim>\<open>[^)]\<close>\<close>
  | AnyChar     \<comment> \<open>\<^verbatim>\<open>.\<close>\<close>

fun in_cls :: "cls \<Rightarrow> char \<Rightarrow> bool" where
  "in_cls Space c = is_space c"
| "in_cls Word c = is_word c"
| "in_cls WordDot c = (is_word c \<or> c = CHR ''.'')"
| "in_cls NotRParen c = (c \<noteq> CHR '')'')"
| "in_cls AnyChar c = (\<not> is_line_terminator c)"

section \<open>Regular expressions\<close>

text \<open>
  The patterns of the source are sequences of literals, greedy repetitions of one
  character class, capture parentheses and the end anchor.  A pattern is the list of its
  items; \<open>Lit s\<close> stands for the text \<open>s\<close> with every metacharacter escaped.
\<close>

datatype item =
    Lit string    \<comment> \<open>the characters of the string, literally\<close>
  | Star cls      \<comment> \<open>\<^verbatim>\<open>c*\<close>, greedy\<close>
  | Plus cls      \<comment> \<open>\<^verbatim>\<open>c+\<close>, greedy\<close>
  | Open          \<comment> \<open>\<^verbatim>\<open>(\<close> of a capture group\<close>
  | Close         \<comment> \<open>\<^verbatim>\<open>)\<close> of a capture group\<close>
  | Eos           \<comment> \<open>\<^verbatim>\<open>$\<close>\<close>

type_synonym regex = "item list"

text \<open>
  The backtracking matcher: \<open>rmatch items s st caps\<close> matches \<open>items\<close> at the head of \<open>s\<close>
  and returns the captures and the input left after the match, trying the alternatives of a
  greedy repetition longest first.  \<open>st\<close> is the input at the last \<open>Open\<close>, \<open>caps\<close> the
  groups closed so far.
\<close>

fun rmatch :: "regex \<Rightarrow> string \<Rightarrow> string \<Rightarrow> string list \<Rightarrow> (string list \<times> string) option" where
  "rmatch [] s st caps = Some (caps, s)"
| "rmatch (Lit l # r) s st caps =
     (if take (length l) s = l then rmatch r (drop (length l) s) st caps else None)"
| "rmatch (Star c # r) [] st caps = rmatch r [] st caps"
| "rmatch (Star c # r) (x # xs) st caps =
     (if in_cls c x then
        (case rmatch (Star c # r) xs st caps of
           Some m \<Rightarrow> Some m
         | None \<Rightarrow> rmatch r (x # xs) st caps)
      else rmatch r (x # xs) st caps)"
| "rmatch (Plus c # r) [] st caps = None"
| "rmatch (Plus c # r) (x # xs) st caps =
     (if in_cls c x then rmatch (Star c # r) xs st caps else None)"
| "rmatch (Open # r) s st caps = rmatch r s s caps"
| "rmatch (Close # r) s st caps = rmatch r s st (caps @ [take (length st - length s) st])"
| "rmatch (Eos # r) s st caps = (if s = [] then rmatch r s st caps else None)"

text \<open>The result of \<^verbatim>\<open>RegExp.prototype.exec\<close>: \<^verbatim>\<open>match.index\<close>, \<^verbatim>\<open>match[0]\<close> and the groups.\<close>

record rmatch_result =
  index :: nat
  matched :: string
  groups :: "string list"

text \<open>The leftmost match in \<open>s\<close>, where \<open>s\<close> starts at offset \<open>i\<close> of the text.\<close>

fun search :: "regex \<Rightarrow> string \<Rightarrow> nat \<Rightarrow> rmatch_result option" where
  "search rx s i =
     (case rmatch rx s s [] of
        Some (caps, rest) \<Rightarrow>
          Some \<lparr>index = i, matched = take (length s - length rest) s, groups = caps\<rparr>
      | None \<Rightarrow> (case s of [] \<Rightarrow> None | x # xs \<Rightarrow> search rx xs (Suc i)))"

declare search.simps [simp del]

definition regex_exec :: "regex \<Rightarrow> string \<Rightarrow> nat \<Rightarrow> rmatch_result option" where
  \<comment> \<open>\<^verbatim>\<open>regex.exec(text)\<close> of a global pattern whose \<^verbatim>\<open>lastIndex\<close> is the third argument\<close>
  "regex_exec rx text lastIndex =
     (if lastIndex > length text then None else search rx (drop lastIndex text) lastIndex)"

section \<open>String operations of the source\<close>

definition trim :: "string \<Rightarrow> string" where
  "trim s = rev (dropWhile is_space (rev (dropWhile is_space s)))"

fun split_on :: "char \<Rightarrow> string \<Rightarrow> string list" where
  \<comment> \<open>\<^verbatim>\<open>s.split(c)\<close> for a one-character separator: never empty, \<^verbatim>\<open>''.split(c)\<close> is \<^verbatim>\<open>['']\<close>
      (so the first branch of the \<open>case\<close> is never taken: \<open>split_on_not_Nil\<close>)\<close>
  "split_on c [] = [[]]"
| "split_on c (x # xs) =
     (if x = c then [] # split_on c xs
      else (case split_on c xs of [] \<Rightarrow> [[x]] | p # ps \<Rightarrow> (x # p) # ps))"

fun join :: "'a list \<Rightarrow> 'a list list \<Rightarrow> 'a list" where
  "join sep [] = []"
| "join sep [p] = p"
| "join sep (p # q # ps) = p @ sep @ join sep (q # ps)"

section \<open>parser.ts\<close>

record ParsedHook =
  name :: string
  parameters :: "string list"
  namespace :: "string option"

fun normalize_loop :: "string \<Rightarrow> int \<Rightarrow> string \<Rightarrow> string" where
  \<comment> \<open>the \<^verbatim>\<open>for\<close> loop of \<^verbatim>\<open>normalizeGenericType\<close> over the characters still to read\<close>
  "normalize_loop [] depth normalized = normalized"
| "normalize_loop (char # cs) depth normalized =
     (if char = CHR ''<'' then normalize_loop cs (depth + 1) (normalized @ [char])
      else if char = CHR ''>'' then normalize_loop cs (depth - 1) (normalized @ [char])
      else if char = CHR '','' \<and> depth > 0 then normalize_loop cs depth (normalized @ ''|'')
      else normalize_loop cs depth (normalized @ [char]))"

definition normalizeGenericType :: "string \<Rightarrow> string" where
  "normalizeGenericType param =
     map (\<lambda>c. if c = CHR ''|'' then CHR '','' else c) (normalize_loop param 0 [])"

definition strip_void :: "string \<Rightarrow> string" where
  \<comment> \<open>\<^verbatim>\<open>.replace(/^void\s+/, '')\<close>\<close>
  "strip_void s =
     (case rmatch [Lit ''void'', Plus Space] s s [] of
        Some (caps, rest) \<Rightarrow> rest
      | None \<Rightarrow> s)"

definition method_regex :: regex where
  \<comment> \<open>\<^verbatim>\<open>/^([\w.]+)\s*\((.*)\)$/\<close>, tried at the start of the string only\<close>
  "method_regex =
     [Open, Plus WordDot, Close, Star Space, Lit ''('', Open, Star AnyChar, Close, Lit '')'', Eos]"

definition methodMatch :: "string \<Rightarrow> (string \<times> string) option" where
  "methodMatch cleanSignature =
     (case rmatch method_regex cleanSignature cleanSignature [] of
        Some (caps, rest) \<Rightarrow> Some (caps ! 0, caps ! 1)
      | None \<Rightarrow> None)"

definition parse_parameters :: "string \<Rightarrow> string list" where
  "parse_parameters paramString =
     map (\<lambda>param. if CHR ''<'' \<in> set param then normalizeGenericType param else param)
       (filter (\<lambda>param. length param > 0)
         (map trim (split_on CHR '','' paramString)))"

definition cleanSignature :: "string \<Rightarrow> string" where
  "cleanSignature hookSignature = strip_void (trim hookSignature)"

definition parseHook :: "string \<Rightarrow> ParsedHook" where
  "parseHook hookSignature =
     (case methodMatch (cleanSignature hookSignature) of
        None \<Rightarrow> \<lparr>name = cleanSignature hookSignature, parameters = [], namespace = None\<rparr>
      | Some (fullName, paramString) \<Rightarrow>
          (let nameParts = split_on CHR ''.'' fullName
           in \<lparr>name = last nameParts,
               parameters = parse_parameters paramString,
               namespace =
                 (if length nameParts > 1 then Some (join ''.'' (butlast nameParts))
                  else None)\<rparr>))"

section \<open>extension.ts\<close>

subsection \<open>The matcher builder\<close>

text \<open>
  \<^verbatim>\<open>createRegexFromHook\<close> concatenates pattern text and compiles it with the flag \<^verbatim>\<open>g\<close>.
  Name and type tokens pass through \<^verbatim>\<open>replace(/[.*+?^${}()|[\]\\]/g, '\\$&')\<close>, which
  escapes every metacharacter, so in the compiled pattern they stand for themselves: they
  are \<open>Lit\<close> items.
\<close>

definition methodStart :: "ParsedHook \<Rightarrow> regex" where
  \<comment> \<open>\<^verbatim>\<open>'void\\s+' + escapedName + '\\s*\\('\<close>\<close>
  "methodStart parsedHook = [Lit ''void'', Plus Space, Lit (name parsedHook), Star Space, Lit ''('']"

definition paramPattern :: "string list \<Rightarrow> regex" where
  "paramPattern params =
     join [Star Space, Lit '','', Star Space]
       (map (\<lambda>param. [Lit (hd (split_on CHR '' '' param)), Plus Space, Plus Word]) params)"

definition createRegexFromHook :: "string \<Rightarrow> bool \<Rightarrow> regex" where
  "createRegexFromHook hook checkMissingParams =
     (let parsedHook = parseHook hook in
      if checkMissingParams then
        methodStart parsedHook @ [Open, Star NotRParen, Close, Lit '')'']
      else if length (parameters parsedHook) > 0 then
        methodStart parsedHook @ [Star Space] @ paramPattern (parameters parsedHook)
          @ [Star Space, Lit '')'']
      else methodStart parsedHook @ [Star Space, Lit '')''])"

subsection \<open>The analysis pass\<close>

datatype DiagnosticSeverity = Error | Warning | Information | Hint

text \<open>
  A diagnostic as \<^verbatim>\<open>analyzeDocument\<close> builds it.  Positions are whatever the host's
  \<^verbatim>\<open>document.positionAt\<close> returns for an offset: the map is a parameter of the pass.
\<close>

record 'p Diagnostic =
  range_of :: "'p \<times> 'p"
  message :: string
  severity :: DiagnosticSeverity
  source :: string

definition match_range :: "(nat \<Rightarrow> 'p) \<Rightarrow> rmatch_result \<Rightarrow> 'p \<times> 'p" where
  "match_range positionAt m =
     (positionAt (index m), positionAt (index m + length (matched m)))"

definition deprecated_message :: "string \<Rightarrow> string \<Rightarrow> string" where
  "deprecated_message oldHook newHook =
     ''Hook '' @ [CHR 0x22] @ oldHook @ [CHR 0x22] @ '' is deprecated.'' @ [CHR 0x0A]
       @ (if newHook \<noteq> [] then ''Use '' @ [CHR 0x22] @ newHook @ [CHR 0x22] @ '' instead.''
          else ''No direct replacement available.'')"

definition deprecated_diagnostic ::
  "(nat \<Rightarrow> 'p) \<Rightarrow> string \<Rightarrow> string \<Rightarrow> rmatch_result \<Rightarrow> 'p Diagnostic" where
  "deprecated_diagnostic positionAt oldHook newHook m =
     \<lparr>range_of = match_range positionAt m,
      message = deprecated_message oldHook newHook,
      severity = Error,
      source = ''Rust Hook Analyzer''\<rparr>"

definition missing_message :: "string \<Rightarrow> string \<Rightarrow> string" where
  "missing_message hookName hook =
     ''Hook '' @ [CHR 0x22] @ hookName @ [CHR 0x22] @ '' has missing parameters.'' @ [CHR 0x0A]
       @ ''Expected: '' @ hook"

definition missing_diagnostic ::
  "(nat \<Rightarrow> 'p) \<Rightarrow> string \<Rightarrow> rmatch_result \<Rightarrow> 'p Diagnostic" where
  "missing_diagnostic positionAt hook m =
     \<lparr>range_of = match_range positionAt m,
      message = missing_message (name (parseHook hook)) hook,
      severity = Warning,
      source = ''Rust Hook Analyzer''\<rparr>"

definition paramCount :: "rmatch_result \<Rightarrow> nat" where
  \<comment> \<open>\<^verbatim>\<open>params = match[1].trim(); paramCount = params ? params.split(',').length : 0\<close>\<close>
  "paramCount m =
     (let params = trim (groups m ! 0)
      in if params \<noteq> [] then length (split_on CHR '','' params) else 0)"

text \<open>
  The two \<^verbatim>\<open>while ((match = regex.exec(text)) !== null)\<close> loops.  The pattern's
  \<^verbatim>\<open>lastIndex\<close> and the arrays the body pushes to are the loop state; a loop that never
  ends has the value \<open>None\<close>.
\<close>

partial_function (option) deprecated_loop ::
  "(nat \<Rightarrow> 'p) \<Rightarrow> regex \<Rightarrow> string \<Rightarrow> string \<Rightarrow> string \<Rightarrow> nat \<Rightarrow> 'p Diagnostic list
     \<Rightarrow> 'p Diagnostic list option" where
  "deprecated_loop positionAt rx text oldHook newHook lastIndex diagnostics =
     (case regex_exec rx text lastIndex of
        None \<Rightarrow> Some diagnostics
      | Some m \<Rightarrow>
          deprecated_loop positionAt rx text oldHook newHook (index m + length (matched m))
            (diagnostics @ [deprecated_diagnostic positionAt oldHook newHook m]))"

partial_function (option) valid_loop ::
  "(nat \<Rightarrow> 'p) \<Rightarrow> regex \<Rightarrow> string \<Rightarrow> string \<Rightarrow> nat \<Rightarrow> 'p Diagnostic list \<times> ('p \<times> 'p) list
     \<Rightarrow> ('p Diagnostic list \<times> ('p \<times> 'p) list) option" where
  "valid_loop positionAt rx text hook lastIndex st =
     (case regex_exec rx text lastIndex of
        None \<Rightarrow> Some st
      | Some m \<Rightarrow>
          valid_loop positionAt rx text hook (index m + length (matched m))
            (if paramCount m < length (parameters (parseHook hook))
             then fst st @ [missing_diagnostic positionAt hook m] else fst st,
             snd st @ [match_range positionAt m]))"

text \<open>The \<^verbatim>\<open>for\<close> loops over the two catalogs, each entry with a fresh pattern.\<close>

fun process_deprecated ::
  "(nat \<Rightarrow> 'p) \<Rightarrow> string \<Rightarrow> (string \<times> string) list \<Rightarrow> 'p Diagnostic list
     \<Rightarrow> 'p Diagnostic list option" where
  "process_deprecated positionAt text [] diagnostics = Some diagnostics"
| "process_deprecated positionAt text ((oldHook, newHook) # entries) diagnostics =
     (case deprecated_loop positionAt (createRegexFromHook oldHook False) text oldHook newHook 0
             diagnostics of
        None \<Rightarrow> None
      | Some diagnostics' \<Rightarrow> process_deprecated positionAt text entries diagnostics')"

fun process_valid ::
  "(nat \<Rightarrow> 'p) \<Rightarrow> string \<Rightarrow> string list \<Rightarrow> 'p Diagnostic list \<times> ('p \<times> 'p) list
     \<Rightarrow> ('p Diagnostic list \<times> ('p \<times> 'p) list) option" where
  "process_valid positionAt text [] st = Some st"
| "process_valid positionAt text (hook # hooks) st =
     (case valid_loop positionAt (createRegexFromHook hook True) text hook 0 st of
        None \<Rightarrow> None
      | Some st' \<Rightarrow> process_valid positionAt text hooks st')"

text \<open>
  What one pass hands to the host: nothing for a document that is not C\#, otherwise the
  array \<^verbatim>\<open>diagnostics\<close> set on the document and the array \<^verbatim>\<open>validHookRanges\<close>, which the
  host decorates when the document is the active editor's.  The two catalogs are read from
  files by the loaders; here they are arguments, the deprecated one as the list of its
  entries in \<^verbatim>\<open>Object.entries\<close> order.
\<close>

datatype 'p outcome = Ignored | Published "'p Diagnostic list" "('p \<times> 'p) list"

definition analyzeDocument ::
  "(nat \<Rightarrow> 'p) \<Rightarrow> string \<Rightarrow> string \<Rightarrow> (string \<times> string) list \<Rightarrow> string list
     \<Rightarrow> 'p outcome option" where
  "analyzeDocument positionAt languageId text deprecatedHooks validHooks =
     (if languageId \<noteq> ''csharp'' then Some Ignored
      else
        (case process_deprecated positionAt text deprecatedHooks [] of
           None \<Rightarrow> None
         | Some diagnostics \<Rightarrow>
             (case process_valid positionAt text validHooks (diagnostics, []) of
                None \<Rightarrow> None
              | Some (diagnostics', validHookRanges) \<Rightarrow>
                  Some (Published diagnostics' validHookRanges))))"

subsection \<open>Occurrences of a pattern\<close>

text \<open>
  The occurrences a global pattern finds in a text: the results of calling
  \<^verbatim>\<open>exec\<close> until it returns \<^verbatim>\<open>null\<close>, each call resuming where the last match ended.
\<close>

partial_function (option) occurrences :: "regex \<Rightarrow> string \<Rightarrow> nat \<Rightarrow> rmatch_result list option" where
  "occurrences rx text lastIndex =
     (case regex_exec rx text lastIndex of
        None \<Rightarrow> Some []
      | Some m \<Rightarrow>
          do { ms \<leftarrow> occurrences rx text (index m + length (matched m)); Some (m # ms) })"

declare deprecated_loop.simps [code]
declare valid_loop.simps [code]
declare occurrences.simps [code]

text \<open>
  The occurrences of a hook in a text, strict (\<open>False\<close>) or permissive (\<open>True\<close>): what the
  \<^verbatim>\<open>while\<close> loops of the pass iterate over, from \<^verbatim>\<open>lastIndex\<close> 0.  A pattern of
  \<open>createRegexFromHook\<close> starts with \<^verbatim>\<open>void\<close>, so each match is non-empty and the iteration
  ends (\<open>hook_occurrences_Some\<close> below): the first branch is never taken.
\<close>

definition hook_occurrences :: "string \<Rightarrow> bool \<Rightarrow> string \<Rightarrow> rmatch_result list" where
  "hook_occurrences hook checkMissingParams text =
     (case occurrences (createRegexFromHook hook checkMissingParams) text 0 of
        None \<Rightarrow> []
      | Some ms \<Rightarrow> ms)"

subsection \<open>The text a strict pattern accepts between the parentheses\<close>

text \<open>
  \<open>param_list_text params t\<close>: the text \<open>t\<close> gives, for each parsed parameter in order, its
  type token (the parameter up to its first space), whitespace and an identifier, the
  positions joined by a comma with optional whitespace around it.
\<close>

inductive param_list_text :: "string list \<Rightarrow> string \<Rightarrow> bool" where
  no_params: "param_list_text [] []"
| last_param:
    "sp \<noteq> [] \<Longrightarrow> \<forall>c\<in>set sp. is_space c \<Longrightarrow> ident \<noteq> [] \<Longrightarrow> \<forall>c\<in>set ident. is_word c \<Longrightarrow>
     param_list_text [param] (hd (split_on CHR '' '' param) @ sp @ ident)"
| next_param:
    "sp \<noteq> [] \<Longrightarrow> \<forall>c\<in>set sp. is_space c \<Longrightarrow> ident \<noteq> [] \<Longrightarrow> \<forall>c\<in>set ident. is_word c \<Longrightarrow>
     \<forall>c\<in>set w1. is_space c \<Longrightarrow> \<forall>c\<in>set w2. is_space c \<Longrightarrow>
     param_list_text (q # ps) t \<Longrightarrow>
     param_list_text (param # q # ps)
       (hd (split_on CHR '' '' param) @ sp @ ident @ w1 @ '','' @ w2 @ t)"

subsection \<open>The parser's contract in the words of the specification\<close>

text \<open>
  The cleaned form of a signature: surrounding whitespace trimmed, then one leading
  \<^verbatim>\<open>void\<close> with the whitespace after it removed, when the keyword is followed by
  whitespace.
\<close>

definition spec_cleaned :: "string \<Rightarrow> string" where
  "spec_cleaned signature =
     (let t = trim signature
      in case drop 4 t of
           [] \<Rightarrow> t
         | c # cs \<Rightarrow> if take 4 t = ''void'' \<and> is_space c then dropWhile is_space cs else t)"

text \<open>
  The anchored shape: a non-empty dotted identifier, optional whitespace, and a parameter
  list in parentheses that runs to the end of the string (on one line).
\<close>

definition spec_shape :: "string \<Rightarrow> bool" where
  "spec_shape s \<longleftrightarrow>
     (\<exists>ident ws params.
        s = ident @ ws @ ''('' @ params @ '')''
      \<and> ident \<noteq> [] \<and> (\<forall>c\<in>set ident. is_word c \<or> c = CHR ''.'')
      \<and> (\<forall>c\<in>set ws. is_space c)
      \<and> (\<forall>c\<in>set params. \<not> is_line_terminator c))"

section \<open>Properties of the string operations\<close>

lemma split_on_not_Nil: "split_on c s \<noteq> []"
  by (induction s) (auto split: list.splits)

lemma split_on_no_sep: "p \<in> set (split_on c s) \<Longrightarrow> c \<notin> set p"
  by (induction s arbitrary: p) (auto split: if_splits list.splits)

lemma set_trim: "set (trim s) \<subseteq> set s"
proof -
  have "set (trim s) \<subseteq> set (dropWhile is_space s)"
    unfolding trim_def using set_dropWhileD [of _ is_space "rev (dropWhile is_space s)"] by auto
  also have "\<dots> \<subseteq> set s"
    using set_dropWhileD [of _ is_space s] by auto
  finally show ?thesis .
qed

lemma rev_dropWhile_takeWhile:
  "rev (dropWhile P xs) @ rev (takeWhile P xs) = rev xs"
  using rev_append [of "takeWhile P xs" "dropWhile P xs", symmetric]
  by (simp only: takeWhile_dropWhile_id)

lemma dropWhile_trim:
  "dropWhile is_space s = trim s @ rev (takeWhile is_space (rev (dropWhile is_space s)))"
  using rev_dropWhile_takeWhile [of is_space "rev (dropWhile is_space s)"]
  by (simp only: trim_def rev_rev_ident)

lemma trim_decompose:
  "\<exists>ws1 ws2. s = ws1 @ trim s @ ws2 \<and> (\<forall>c\<in>set ws1. is_space c) \<and> (\<forall>c\<in>set ws2. is_space c)"
proof -
  let ?d = "dropWhile is_space s"
  have "s = takeWhile is_space s @ ?d" by simp
  then have "s = takeWhile is_space s @ trim s @ rev (takeWhile is_space (rev ?d))"
    using dropWhile_trim [of s] by metis
  moreover have "\<forall>c\<in>set (takeWhile is_space s). is_space c"
    by (auto dest: set_takeWhileD)
  moreover have "\<forall>c\<in>set (rev (takeWhile is_space (rev ?d))). is_space c"
    by (auto dest: set_takeWhileD)
  ultimately show ?thesis by blast
qed

lemma trim_ends:
  assumes "trim s \<noteq> []"
  shows "\<not> is_space (hd (trim s))" and "\<not> is_space (last (trim s))"
proof -
  let ?d = "dropWhile is_space s"
  let ?e = "dropWhile is_space (rev ?d)"
  from assms have e: "?e \<noteq> []" by (simp add: trim_def)
  then have "\<not> is_space (hd ?e)" by (rule hd_dropWhile)
  with e show "\<not> is_space (last (trim s))"
    by (simp add: trim_def last_rev)
  have d: "?d \<noteq> []"
  proof
    assume "?d = []"
    then have "?e = []" by (simp only: rev.simps dropWhile.simps)
    with e show False ..
  qed
  then have nd: "\<not> is_space (hd ?d)" by (rule hd_dropWhile)
  from assms dropWhile_trim [of s] have "hd ?d = hd (trim s)" by (metis hd_append2)
  with nd show "\<not> is_space (hd (trim s))" by simp
qed

lemma trim_blank:
  assumes "\<forall>c\<in>set s. is_space c"
  shows "trim s = []"
proof -
  from assms have "dropWhile is_space s = []" by (simp only: dropWhile_eq_Nil_conv)
  then show ?thesis by (simp only: trim_def rev.simps dropWhile.simps)
qed

lemma join_Cons_Cons: "join sep ((x # p) # ps) = x # join sep (p # ps)"
  by (cases ps) auto

lemma join_split_on: "join [c] (split_on c s) = s"
proof (induction s)
  case Nil
  show ?case by simp
next
  case (Cons x xs)
  obtain q qs where q: "split_on c xs = q # qs"
    using split_on_not_Nil [of c xs] by (cases "split_on c xs") auto
  show ?case
  proof (cases "x = c")
    case True
    with Cons q show ?thesis by simp
  next
    case False
    with Cons q show ?thesis by (simp add: join_Cons_Cons)
  qed
qed

lemma length_split_on: "length (split_on c s) = Suc (count_list s c)"
  by (induction s) (auto split: list.splits simp: split_on_not_Nil)

lemma join_butlast_last:
  "length xs > 1 \<Longrightarrow> join sep (butlast xs) @ sep @ last xs = join sep xs"
  by (induction sep xs rule: join.induct) auto

lemma split_on_single: "c \<notin> set s \<Longrightarrow> split_on c s = [s]"
  by (induction s) auto

lemma count_list_pos: "c \<in> set s \<Longrightarrow> count_list s c > 0"
  by (induction s) auto

lemma count_list_0: "count_list s c = 0 \<Longrightarrow> c \<notin> set s"
  by (induction s) (auto split: if_splits)

lemma count_list_dropWhile:
  "\<not> P c \<Longrightarrow> count_list (dropWhile P s) c = count_list s c"
  by (induction s) auto

lemma count_list_rev: "count_list (rev s) c = count_list s c"
  by (induction s) auto

lemma count_list_trim: "\<not> is_space c \<Longrightarrow> count_list (trim s) c = count_list s c"
  by (simp add: trim_def count_list_rev count_list_dropWhile)

lemma last_split_on_Nil: "last (split_on c s) = [] \<longleftrightarrow> s = [] \<or> last s = c"
proof (induction s)
  case Nil
  show ?case by simp
next
  case (Cons x xs)
  obtain q qs where q: "split_on c xs = q # qs"
    using split_on_not_Nil [of c xs] by (cases "split_on c xs") auto
  show ?case
  proof (cases "x = c")
    case True
    with q Cons.IH show ?thesis by (cases xs) auto
  next
    case False
    show ?thesis
    proof (cases qs)
      case Nil
      with q have "length (split_on c xs) = 1" by simp
      then have "c \<notin> set xs"
        by (simp add: length_split_on count_list_0)
      with False have "c \<notin> set (x # xs)" by simp
      moreover have "last (x # xs) \<in> set (x # xs)" by (rule last_in_set) simp
      ultimately have "last (x # xs) \<noteq> c" by metis
      with False q Nil show ?thesis by simp
    next
      case (Cons p ps)
      with q have "xs \<noteq> []" by auto
      with False q Cons Cons.IH show ?thesis by simp
    qed
  qed
qed

lemma set_last_split_on: "set (last (split_on c s)) \<subseteq> set s"
  by (induction s) (auto split: list.splits if_splits simp: split_on_not_Nil)

section \<open>Properties of the matcher\<close>

lemma rmatch_rest_le:
  "rmatch rx s st caps = Some (caps', rest) \<Longrightarrow> length rest \<le> length s"
  by (induction rx s st caps rule: rmatch.induct)
     (auto split: if_splits option.splits)

lemma rmatch_caps_length:
  "rmatch rx s st caps = Some (caps', rest) \<Longrightarrow>
   length caps' = length caps + length (filter (\<lambda>i. i = Close) rx)"
  by (induction rx s st caps rule: rmatch.induct)
     (auto split: if_splits option.splits)

lemma rmatch_LitD:
  assumes "rmatch (Lit l # r) s st caps = Some res"
  shows "\<exists>s'. s = l @ s' \<and> rmatch r s' st caps = Some res"
proof -
  from assms have t: "take (length l) s = l" and m: "rmatch r (drop (length l) s) st caps = Some res"
    by (auto split: if_splits)
  from t have "s = l @ drop (length l) s"
    by (metis append_take_drop_id)
  with m show ?thesis by blast
qed

lemma rmatch_StarD:
  "rmatch (Star c # r) s st caps = Some res \<Longrightarrow>
   \<exists>w s'. s = w @ s' \<and> (\<forall>x\<in>set w. in_cls c x) \<and> rmatch r s' st caps = Some res"
proof (induction s)
  case Nil
  then show ?case by simp
next
  case (Cons x xs)
  show ?case
  proof (cases "in_cls c x \<and> rmatch (Star c # r) xs st caps \<noteq> None")
    case True
    with Cons.prems have "rmatch (Star c # r) xs st caps = Some res"
      by (auto split: option.splits)
    from Cons.IH [OF this] obtain w s' where
      "xs = w @ s'" "\<forall>x\<in>set w. in_cls c x" "rmatch r s' st caps = Some res" by blast
    with True show ?thesis
      by (intro exI [of _ "x # w"] exI [of _ s']) simp
  next
    case False
    with Cons.prems have "rmatch r (x # xs) st caps = Some res"
      by (auto split: if_splits option.splits)
    then show ?thesis
      by (intro exI [of _ "[]"] exI [of _ "x # xs"]) simp
  qed
qed

lemma rmatch_StarI:
  assumes "\<forall>x\<in>set w. in_cls c x" and "rmatch r s' st caps \<noteq> None"
  shows "rmatch (Star c # r) (w @ s') st caps \<noteq> None"
  using assms
proof (induction w)
  case Nil
  then show ?case by (cases s') (auto split: option.splits)
next
  case (Cons x w)
  then show ?case by (auto split: option.splits)
qed

lemma rmatch_PlusD:
  assumes "rmatch (Plus c # r) s st caps = Some res"
  shows "\<exists>w s'. s = w @ s' \<and> w \<noteq> [] \<and> (\<forall>x\<in>set w. in_cls c x) \<and> rmatch r s' st caps = Some res"
proof (cases s)
  case Nil
  with assms show ?thesis by simp
next
  case (Cons x xs)
  with assms have x: "in_cls c x" and m: "rmatch (Star c # r) xs st caps = Some res"
    by (auto split: if_splits)
  from rmatch_StarD [OF m] obtain w s' where
    "xs = w @ s'" "\<forall>x\<in>set w. in_cls c x" "rmatch r s' st caps = Some res" by blast
  with x Cons show ?thesis
    by (intro exI [of _ "x # w"] exI [of _ s']) simp
qed

lemma rmatch_group_StarD:
  assumes "rmatch (Open # Star c # Close # r) s st caps = Some res"
  shows "\<exists>w s'. s = w @ s' \<and> (\<forall>x\<in>set w. in_cls c x) \<and> rmatch r s' s (caps @ [w]) = Some res"
proof -
  from assms have "rmatch (Star c # Close # r) s s caps = Some res" by simp
  from rmatch_StarD [OF this] obtain w s' where
    s: "s = w @ s'" and w: "\<forall>x\<in>set w. in_cls c x" and m: "rmatch (Close # r) s' s caps = Some res"
    by blast
  from s have "take (length s - length s') s = w" by simp
  with m have "rmatch r s' s (caps @ [w]) = Some res" by simp
  with s w show ?thesis by blast
qed

lemma rmatch_group_PlusD:
  assumes "rmatch (Open # Plus c # Close # r) s st caps = Some res"
  shows "\<exists>w s'. s = w @ s' \<and> w \<noteq> [] \<and> (\<forall>x\<in>set w. in_cls c x)
           \<and> rmatch r s' s (caps @ [w]) = Some res"
proof -
  from assms have "rmatch (Plus c # Close # r) s s caps = Some res" by simp
  from rmatch_PlusD [OF this] obtain w s' where
    s: "s = w @ s'" and w: "w \<noteq> []" "\<forall>x\<in>set w. in_cls c x"
    and m: "rmatch (Close # r) s' s caps = Some res"
    by blast
  from s have "take (length s - length s') s = w" by simp
  with m have "rmatch r s' s (caps @ [w]) = Some res" by simp
  with s w show ?thesis by blast
qed

lemma rmatch_Lit_consumes:
  assumes "rmatch (Lit (a # l) # r) s st caps = Some (caps', rest)"
  shows "length rest < length s"
proof -
  from assms have t: "take (Suc (length l)) s = a # l"
    and m: "rmatch r (drop (Suc (length l)) s) st caps = Some (caps', rest)"
    by (auto split: if_splits)
  from t have "s \<noteq> []" by auto
  moreover from rmatch_rest_le [OF m] have "length rest \<le> length s - Suc (length l)" by simp
  ultimately show ?thesis by (cases s) auto
qed

lemma search_Some:
  "search rx s i = Some m \<Longrightarrow>
   \<exists>k caps rest. k \<le> length s \<and> rmatch rx (drop k s) (drop k s) [] = Some (caps, rest)
     \<and> m = \<lparr>index = i + k, matched = take (length s - k - length rest) (drop k s), groups = caps\<rparr>"
proof (induction s arbitrary: i)
  case Nil
  then show ?case
    by (subst (asm) search.simps) (auto split: option.splits)
next
  case (Cons x xs)
  show ?case
  proof (cases "rmatch rx (x # xs) (x # xs) []")
    case None
    with Cons.prems have "search rx xs (Suc i) = Some m"
      by (subst (asm) search.simps) simp
    from Cons.IH [OF this] obtain k caps rest where
      "k \<le> length xs" "rmatch rx (drop k xs) (drop k xs) [] = Some (caps, rest)"
      "m = \<lparr>index = Suc i + k, matched = take (length xs - k - length rest) (drop k xs), groups = caps\<rparr>"
      by blast
    then show ?thesis
      by (intro exI [of _ "Suc k"] exI [of _ caps] exI [of _ rest]) simp
  next
    case (Some a)
    obtain caps rest where a: "a = (caps, rest)" by (cases a)
    with Some Cons.prems
    have "m = \<lparr>index = i, matched = take (length (x # xs) - length rest) (x # xs), groups = caps\<rparr>"
      by (subst (asm) search.simps) simp
    with Some a show ?thesis
      by (intro exI [of _ 0] exI [of _ caps] exI [of _ rest]) simp
  qed
qed

lemma regex_exec_Some:
  assumes "regex_exec rx text i = Some m"
  shows "\<exists>k caps rest. i + k \<le> length text
     \<and> rmatch rx (drop (i + k) text) (drop (i + k) text) [] = Some (caps, rest)
     \<and> index m = i + k
     \<and> matched m = take (length text - (i + k) - length rest) (drop (i + k) text)
     \<and> groups m = caps"
proof -
  from assms have le: "i \<le> length text" and s: "search rx (drop i text) i = Some m"
    by (auto simp: regex_exec_def split: if_splits)
  from search_Some [OF s] obtain k caps rest where
    k: "k \<le> length (drop i text)"
    and r: "rmatch rx (drop k (drop i text)) (drop k (drop i text)) [] = Some (caps, rest)"
    and m: "m = \<lparr>index = i + k,
          matched = take (length (drop i text) - k - length rest) (drop k (drop i text)),
          groups = caps\<rparr>"
    by blast
  have d: "drop k (drop i text) = drop (i + k) text" by (simp add: add.commute)
  from k le have "i + k \<le> length text" by simp
  moreover from r have "rmatch rx (drop (i + k) text) (drop (i + k) text) [] = Some (caps, rest)"
    unfolding d .
  moreover from m have "index m = i + k" "groups m = caps"
    "matched m = take (length text - (i + k) - length rest) (drop (i + k) text)"
    by (simp_all add: add.commute)
  ultimately show ?thesis by blast
qed

lemma regex_exec_advances:
  assumes "regex_exec (Lit (a # l) # r) text i = Some m"
  shows "i < index m + length (matched m)" and "index m + length (matched m) \<le> length text"
proof -
  from regex_exec_Some [OF assms] obtain k caps rest where
    k: "i + k \<le> length text"
    and r: "rmatch (Lit (a # l) # r) (drop (i + k) text) (drop (i + k) text) [] = Some (caps, rest)"
    and i: "index m = i + k"
    and t: "matched m = take (length text - (i + k) - length rest) (drop (i + k) text)"
    by blast
  from rmatch_Lit_consumes [OF r] have lt: "length rest < length text - (i + k)" by simp
  from t have "length (matched m) = length text - (i + k) - length rest" by simp
  with lt i k show "i < index m + length (matched m)"
    and "index m + length (matched m) \<le> length text" by auto
qed

subsection \<open>Iterated \<^verbatim>\<open>exec\<close>\<close>

lemma occurrences_total:
  "\<exists>ms. occurrences (Lit (a # l) # r) text i = Some ms"
proof (induction "Suc (length text) - i" arbitrary: i rule: less_induct)
  case less
  show ?case
  proof (cases "regex_exec (Lit (a # l) # r) text i")
    case None
    then show ?thesis by (subst occurrences.simps) simp
  next
    case (Some m)
    from regex_exec_advances [OF Some]
    have "Suc (length text) - (index m + length (matched m)) < Suc (length text) - i" by arith
    from less [OF this] obtain ms where
      "occurrences (Lit (a # l) # r) text (index m + length (matched m)) = Some ms" by blast
    with Some show ?thesis by (subst occurrences.simps) simp
  qed
qed

lemma occurrences_Nil:
  "occurrences rx text i = Some [] \<Longrightarrow> regex_exec rx text i = None"
  by (subst (asm) occurrences.simps) (auto split: option.splits Option.bind_splits)

lemma occurrences_Cons:
  "occurrences rx text i = Some (m # ms) \<Longrightarrow>
   regex_exec rx text i = Some m \<and> occurrences rx text (index m + length (matched m)) = Some ms"
  by (subst (asm) occurrences.simps) (auto split: option.splits Option.bind_splits)

lemma occurrences_exec:
  "occurrences rx text i = Some ms \<Longrightarrow> m \<in> set ms \<Longrightarrow> \<exists>j. regex_exec rx text j = Some m"
proof (induction ms arbitrary: i)
  case Nil
  then show ?case by simp
next
  case (Cons a ms)
  from occurrences_Cons [OF Cons.prems(1)] Cons.IH Cons.prems(2) show ?case by auto
qed

lemma deprecated_loop_eq:
  "occurrences rx text i = Some ms \<Longrightarrow>
   deprecated_loop positionAt rx text oldHook newHook i diagnostics =
     Some (diagnostics @ map (deprecated_diagnostic positionAt oldHook newHook) ms)"
proof (induction ms arbitrary: i diagnostics)
  case Nil
  from occurrences_Nil [OF Nil] show ?case
    by (subst deprecated_loop.simps) simp
next
  case (Cons m ms)
  from occurrences_Cons [OF Cons.prems] Cons.IH show ?case
    by (subst deprecated_loop.simps) simp
qed

lemma valid_loop_eq:
  "occurrences rx text i = Some ms \<Longrightarrow>
   valid_loop positionAt rx text hook i (diagnostics, validHookRanges) =
     Some (diagnostics @ map (missing_diagnostic positionAt hook)
              (filter (\<lambda>m. paramCount m < length (parameters (parseHook hook))) ms),
           validHookRanges @ map (match_range positionAt) ms)"
proof (induction ms arbitrary: i diagnostics validHookRanges)
  case Nil
  from occurrences_Nil [OF Nil] show ?case
    by (subst valid_loop.simps) simp
next
  case (Cons m ms)
  from occurrences_Cons [OF Cons.prems] Cons.IH show ?case
    by (subst valid_loop.simps) simp
qed

section \<open>Properties of the signature parser\<close>

lemma normalize_loop_no_comma:
  "CHR '','' \<notin> set param \<Longrightarrow> normalize_loop param depth normalized = normalized @ param"
  by (induction param depth normalized rule: normalize_loop.induct) auto

lemma normalizeGenericType_no_comma:
  "CHR '','' \<notin> set param \<Longrightarrow>
   normalizeGenericType param = map (\<lambda>c. if c = CHR ''|'' then CHR '','' else c) param"
  by (simp add: normalizeGenericType_def normalize_loop_no_comma)

lemma parse_parameters_eq:
  "parse_parameters paramString =
     map (\<lambda>p. if CHR ''<'' \<in> set p then map (\<lambda>c. if c = CHR ''|'' then CHR '','' else c) p else p)
       (filter (\<lambda>p. p \<noteq> []) (map trim (split_on CHR '','' paramString)))"
proof -
  have "CHR '','' \<notin> set p"
    if "p \<in> set (filter (\<lambda>p. p \<noteq> []) (map trim (split_on CHR '','' paramString)))" for p
  proof -
    from that obtain q where "q \<in> set (split_on CHR '','' paramString)" "p = trim q" by auto
    then show ?thesis using split_on_no_sep [of q] set_trim [of q] by auto
  qed
  then show ?thesis
    unfolding parse_parameters_def
    by (simp add: normalizeGenericType_no_comma)
qed

lemma method_match:
  assumes "methodMatch s = Some (fullName, paramString)"
  shows "\<exists>ws. s = fullName @ ws @ ''('' @ paramString @ '')''
         \<and> fullName \<noteq> [] \<and> (\<forall>c\<in>set fullName. is_word c \<or> c = CHR ''.'')
         \<and> (\<forall>c\<in>set ws. is_space c)
         \<and> (\<forall>c\<in>set paramString. \<not> is_line_terminator c)"
proof -
  let ?r2 = "[Open, Star AnyChar, Close, Lit '')'', Eos]"
  from assms obtain caps rest where
    m: "rmatch (Open # Plus WordDot # Close # Star Space # Lit ''('' # ?r2) s s [] = Some (caps, rest)"
    and c: "fullName = caps ! 0" "paramString = caps ! 1"
    by (auto simp: methodMatch_def method_regex_def split: option.splits)
  from rmatch_group_PlusD [OF m] obtain w s1 where s1: "s = w @ s1"
    and w: "w \<noteq> []" "\<forall>x\<in>set w. in_cls WordDot x"
    and m1: "rmatch (Star Space # Lit ''('' # ?r2) s1 s ([] @ [w]) = Some (caps, rest)" by blast
  from rmatch_StarD [OF m1] obtain ws s2 where s2: "s1 = ws @ s2"
    and ws: "\<forall>x\<in>set ws. in_cls Space x"
    and m2: "rmatch (Lit ''('' # ?r2) s2 s ([] @ [w]) = Some (caps, rest)" by blast
  from rmatch_LitD [OF m2] obtain s3 where s3: "s2 = ''('' @ s3"
    and m3: "rmatch ?r2 s3 s ([] @ [w]) = Some (caps, rest)" by blast
  from rmatch_group_StarD [OF m3] obtain p s4 where s4: "s3 = p @ s4"
    and p: "\<forall>x\<in>set p. in_cls AnyChar x"
    and m4: "rmatch [Lit '')'', Eos] s4 s3 (([] @ [w]) @ [p]) = Some (caps, rest)" by blast
  from rmatch_LitD [OF m4] obtain s5 where s5: "s4 = '')'' @ s5"
    and m5: "rmatch [Eos] s5 s3 (([] @ [w]) @ [p]) = Some (caps, rest)" by blast
  from m5 have e: "s5 = []" "caps = [w, p]" by (auto split: if_splits)
  from c e have n: "fullName = w" "paramString = p" by simp_all
  have "s = fullName @ ws @ ''('' @ paramString @ '')''"
    unfolding s1 s2 s3 s4 s5 e n by simp
  with w ws p show ?thesis unfolding n by auto
qed

lemma method_match_complete:
  assumes "ident \<noteq> []" and "\<forall>c\<in>set ident. is_word c \<or> c = CHR ''.''"
    and "\<forall>c\<in>set ws. is_space c" and "\<forall>c\<in>set params. \<not> is_line_terminator c"
  shows "methodMatch (ident @ ws @ ''('' @ params @ '')'') \<noteq> None"
proof -
  let ?s = "ident @ ws @ ''('' @ params @ '')''"
  obtain x ident' where i: "ident = x # ident'" using assms(1) by (cases ident) auto
  have p: "rmatch (Star AnyChar # [Close, Lit '')'', Eos]) (params @ '')'') st caps \<noteq> None"
    for st caps
    by (rule rmatch_StarI) (use assms(4) in simp_all)
  have w: "rmatch (Star Space # [Lit ''('', Open, Star AnyChar, Close, Lit '')'', Eos])
      (ws @ ''('' @ params @ '')'') st caps \<noteq> None" for st caps
    by (rule rmatch_StarI) (use assms(3) p in simp_all)
  have "rmatch (Star WordDot # [Close, Star Space, Lit ''('', Open, Star AnyChar, Close, Lit '')'', Eos])
      (ident' @ ws @ ''('' @ params @ '')'') st caps \<noteq> None" for st caps
    by (rule rmatch_StarI) (use assms(2) i w in simp_all)
  with assms(2) i have "rmatch method_regex ?s ?s [] \<noteq> None"
    by (simp add: method_regex_def)
  then show ?thesis
    by (auto simp: methodMatch_def split: option.splits)
qed

lemma methodMatch_None_iff: "methodMatch s = None \<longleftrightarrow> \<not> spec_shape s"
proof
  assume n: "methodMatch s = None"
  show "\<not> spec_shape s"
  proof
    assume "spec_shape s"
    then obtain ident ws params where "s = ident @ ws @ ''('' @ params @ '')''"
      "ident \<noteq> []" "\<forall>c\<in>set ident. is_word c \<or> c = CHR ''.''"
      "\<forall>c\<in>set ws. is_space c" "\<forall>c\<in>set params. \<not> is_line_terminator c"
      unfolding spec_shape_def by blast
    with method_match_complete [of ident ws params] n show False by simp
  qed
next
  assume s: "\<not> spec_shape s"
  show "methodMatch s = None"
  proof (cases "methodMatch s")
    case None
    then show ?thesis .
  next
    case (Some a)
    obtain fullName paramString where "a = (fullName, paramString)" by (cases a)
    with Some method_match [of s fullName paramString] have "spec_shape s"
      unfolding spec_shape_def by blast
    with s show ?thesis by simp
  qed
qed

lemma strip_void_eq:
  "strip_void t =
     (case drop 4 t of
        [] \<Rightarrow> t
      | c # cs \<Rightarrow> if take 4 t = ''void'' \<and> is_space c then dropWhile is_space cs else t)"
proof -
  have star: "rmatch [Star Space] s st caps = Some (caps, dropWhile is_space s)" for s st caps
    by (induction s) auto
  have l: "length ''void'' = 4" by simp
  have m: "rmatch [Lit ''void'', Plus Space] t t [] =
      (if take 4 t = ''void'' then rmatch [Plus Space] (drop 4 t) t [] else None)"
    by (simp only: rmatch.simps l)
  have u: "strip_void t =
      (if take 4 t = ''void''
       then (case rmatch [Plus Space] (drop 4 t) t [] of Some (caps, rest) \<Rightarrow> rest | None \<Rightarrow> t)
       else t)"
    unfolding strip_void_def m by (cases "take 4 t = ''void''") simp_all
  show ?thesis
  proof (cases "drop 4 t")
    case Nil
    then show ?thesis unfolding u by simp
  next
    case (Cons c cs)
    then show ?thesis unfolding u by (simp add: star)
  qed
qed

lemma cleanSignature_spec: "cleanSignature signature = spec_cleaned signature"
  by (simp add: cleanSignature_def spec_cleaned_def Let_def strip_void_eq)

text \<open>
  C1.  The parameter list is split on every comma before any piece reaches
  \<open>normalizeGenericType\<close>, so a comma between generic type arguments separates parameters
  like any other: the signature \<^verbatim>\<open>void Foo(Dictionary<string, int> a, bool b)\<close> parses to name
  \<^verbatim>\<open>Foo\<close> and the three parameters \<^verbatim>\<open>Dictionary<string\<close>, \<^verbatim>\<open>int> a\<close> and \<^verbatim>\<open>bool b\<close>,
  where the top-level comma boundaries give two.
\<close>

theorem parse_splits_generic_arguments:
  "parseHook ''void Foo(Dictionary<string, int> a, bool b)'' =
     \<lparr>name = ''Foo'',
      parameters = [''Dictionary<string'', ''int> a'', ''bool b''],
      namespace = None\<rparr>"
  by code_simp

text \<open>
  C5.  \<open>parseHook\<close> returns a result for every input string: it is a total function, its
  two reads of the match array are in range (the shape pattern has two groups) and the list
  of name segments is never empty, so no step of it can raise.  The cleaned input is the
  signature trimmed of surrounding whitespace, with one leading \<^verbatim>\<open>void\<close> and the whitespace
  after it removed.  The shape match fails exactly when the cleaned input is not a non-empty
  dotted identifier, optional whitespace and a parenthesised one-line parameter list up to the
  end of the string; then the result is the cleaned string as name, no parameters and no
  namespace.  A blank input gives the empty name; \<^verbatim>\<open>not a signature\<close> parses to itself as
  name, also with surrounding whitespace and a leading \<^verbatim>\<open>void\<close>; with text after the
  closing parenthesis, \<^verbatim>\<open>void Foo(int x) { }\<close> degrades to the name \<^verbatim>\<open>Foo(int x) { }\<close>.
\<close>

theorem parse_degrades:
  "cleanSignature sig = spec_cleaned sig
   \<and> (\<exists>ws1 ws2. sig = ws1 @ trim sig @ ws2
         \<and> (\<forall>c\<in>set ws1. is_space c) \<and> (\<forall>c\<in>set ws2. is_space c))
   \<and> (trim sig \<noteq> [] \<longrightarrow> \<not> is_space (hd (trim sig)) \<and> \<not> is_space (last (trim sig)))
   \<and> (methodMatch s = None \<longleftrightarrow> \<not> spec_shape s)
   \<and> (rmatch method_regex s s [] = Some (caps, rest) \<longrightarrow> length caps = 2)
   \<and> split_on c fullName \<noteq> []
   \<and> (\<not> spec_shape (spec_cleaned sig) \<longrightarrow>
        parseHook sig = \<lparr>name = spec_cleaned sig, parameters = [], namespace = None\<rparr>)
   \<and> ((\<forall>c\<in>set sig. is_space c) \<longrightarrow>
        parseHook sig = \<lparr>name = [], parameters = [], namespace = None\<rparr>)
   \<and> parseHook ''not a signature'' =
        \<lparr>name = ''not a signature'', parameters = [], namespace = None\<rparr>
   \<and> parseHook ''  void   not a signature  '' =
        \<lparr>name = ''not a signature'', parameters = [], namespace = None\<rparr>
   \<and> parseHook ''void Foo(int x) { }'' =
        \<lparr>name = ''Foo(int x) { }'', parameters = [], namespace = None\<rparr>"
proof (intro conjI impI)
  show "cleanSignature sig = spec_cleaned sig" by (rule cleanSignature_spec)
  show "\<exists>ws1 ws2. sig = ws1 @ trim sig @ ws2
         \<and> (\<forall>c\<in>set ws1. is_space c) \<and> (\<forall>c\<in>set ws2. is_space c)"
    by (rule trim_decompose)
  show "methodMatch s = None \<longleftrightarrow> \<not> spec_shape s" by (rule methodMatch_None_iff)
  show "split_on c fullName \<noteq> []" by (rule split_on_not_Nil)
  show "parseHook ''not a signature'' =
        \<lparr>name = ''not a signature'', parameters = [], namespace = None\<rparr>"
    by code_simp
  show "parseHook ''  void   not a signature  '' =
        \<lparr>name = ''not a signature'', parameters = [], namespace = None\<rparr>"
    by code_simp
  show "parseHook ''void Foo(int x) { }'' =
        \<lparr>name = ''Foo(int x) { }'', parameters = [], namespace = None\<rparr>"
    by code_simp
next
  assume "trim sig \<noteq> []"
  then show "\<not> is_space (hd (trim sig))" and "\<not> is_space (last (trim sig))"
    by (rule trim_ends)+
next
  assume "rmatch method_regex s s [] = Some (caps, rest)"
  from rmatch_caps_length [OF this] show "length caps = 2"
    by (simp add: method_regex_def)
next
  assume "\<not> spec_shape (spec_cleaned sig)"
  then have "methodMatch (cleanSignature sig) = None"
    by (simp add: methodMatch_None_iff cleanSignature_spec)
  then show "parseHook sig = \<lparr>name = spec_cleaned sig, parameters = [], namespace = None\<rparr>"
    by (simp add: parseHook_def cleanSignature_spec)
next
  assume "\<forall>c\<in>set sig. is_space c"
  then have "trim sig = []" by (rule trim_blank)
  then have c: "cleanSignature sig = []"
    by (simp add: cleanSignature_def strip_void_def)
  have "\<not> spec_shape []" by (simp add: spec_shape_def)
  then have "methodMatch (cleanSignature sig) = None"
    unfolding c by (simp add: methodMatch_None_iff)
  then show "parseHook sig = \<lparr>name = [], parameters = [], namespace = None\<rparr>"
    by (simp add: parseHook_def c)
qed

theorem parse_degrades_witness:
  "spec_cleaned ''  void   not a signature  '' = ''not a signature''
   \<and> \<not> spec_shape (spec_cleaned ''  void   not a signature  '')
   \<and> parseHook ''  void   not a signature  '' =
        \<lparr>name = ''not a signature'', parameters = [], namespace = None\<rparr>"
proof -
  have c: "spec_cleaned ''  void   not a signature  '' = ''not a signature''"
    by code_simp
  have n: "\<not> spec_shape ''not a signature''"
  proof
    assume "spec_shape ''not a signature''"
    then obtain ident ws params where "''not a signature'' = ident @ ws @ ''('' @ params @ '')''"
      unfolding spec_shape_def by blast
    then have "last ''not a signature'' = last (ident @ ws @ ''('' @ params @ '')'')"
      by (rule arg_cong)
    then show False by simp
  qed
  then have n': "\<not> spec_shape (spec_cleaned ''  void   not a signature  '')"
    unfolding c .
  with parse_degrades [of "''  void   not a signature  ''"]
  have "parseHook ''  void   not a signature  '' =
      \<lparr>name = spec_cleaned ''  void   not a signature  '', parameters = [], namespace = None\<rparr>"
    by blast
  then have "parseHook ''  void   not a signature  '' =
      \<lparr>name = ''not a signature'', parameters = [], namespace = None\<rparr>"
    unfolding c .
  with c n' show ?thesis by blast
qed

text \<open>
  C8.  On a shape match the dotted identifier is split on the dot: the name is the last
  segment, and the namespace is the segments before it joined by dots exactly when there
  is more than one segment, absent otherwise.  So the name has no dot; with a namespace the
  identifier reads namespace, dot, name; without one the identifier has no dot and is the name.
  The signature \<^verbatim>\<open>void NS.Sub.Baz(int x)\<close> parses to name \<^verbatim>\<open>Baz\<close>, namespace \<^verbatim>\<open>NS.Sub\<close> and
  the one parameter \<^verbatim>\<open>int x\<close>.
\<close>

theorem parse_namespace:
  "(methodMatch (cleanSignature sig) = Some (fullName, paramString) \<longrightarrow>
      name (parseHook sig) = last (split_on CHR ''.'' fullName)
    \<and> namespace (parseHook sig) =
        (if length (split_on CHR ''.'' fullName) > 1
         then Some (join ''.'' (butlast (split_on CHR ''.'' fullName))) else None)
    \<and> CHR ''.'' \<notin> set (name (parseHook sig))
    \<and> (case namespace (parseHook sig) of
          None \<Rightarrow> CHR ''.'' \<notin> set fullName \<and> name (parseHook sig) = fullName
        | Some ns \<Rightarrow> CHR ''.'' \<in> set fullName \<and> ns @ ''.'' @ name (parseHook sig) = fullName))
   \<and> parseHook ''void NS.Sub.Baz(int x)'' =
       \<lparr>name = ''Baz'', parameters = [''int x''], namespace = Some ''NS.Sub''\<rparr>"
proof (intro conjI impI)
  assume m: "methodMatch (cleanSignature sig) = Some (fullName, paramString)"
  let ?parts = "split_on CHR ''.'' fullName"
  show n: "name (parseHook sig) = last ?parts"
    using m by (simp add: parseHook_def Let_def)
  show ns: "namespace (parseHook sig) =
      (if length ?parts > 1 then Some (join ''.'' (butlast ?parts)) else None)"
    using m by (simp add: parseHook_def Let_def)
  have "last ?parts \<in> set ?parts"
    using split_on_not_Nil by simp
  then show "CHR ''.'' \<notin> set (name (parseHook sig))"
    unfolding n by (rule split_on_no_sep)
  show "case namespace (parseHook sig) of
          None \<Rightarrow> CHR ''.'' \<notin> set fullName \<and> name (parseHook sig) = fullName
        | Some ns \<Rightarrow> CHR ''.'' \<in> set fullName \<and> ns @ ''.'' @ name (parseHook sig) = fullName"
  proof (cases "CHR ''.'' \<in> set fullName")
    case True
    then have l: "length ?parts > 1"
      using count_list_pos [of "CHR ''.''" fullName] by (simp add: length_split_on)
    have "join ''.'' (butlast ?parts) @ ''.'' @ last ?parts = fullName"
      using join_butlast_last [OF l, of "''.''"] join_split_on [of "CHR ''.''" fullName] by simp
    with True l show ?thesis
      unfolding n ns by simp
  next
    case False
    then have "?parts = [fullName]" by (rule split_on_single)
    with False show ?thesis
      unfolding n ns by simp
  qed
next
  show "parseHook ''void NS.Sub.Baz(int x)'' =
       \<lparr>name = ''Baz'', parameters = [''int x''], namespace = Some ''NS.Sub''\<rparr>"
    by code_simp
qed

theorem parse_namespace_witness:
  "methodMatch (cleanSignature ''void NS.Sub.Baz(int x)'') = Some (''NS.Sub.Baz'', ''int x'')
   \<and> name (parseHook ''void NS.Sub.Baz(int x)'') = ''Baz''
   \<and> namespace (parseHook ''void NS.Sub.Baz(int x)'') = Some ''NS.Sub''"
proof -
  have h: "methodMatch (cleanSignature ''void NS.Sub.Baz(int x)'') = Some (''NS.Sub.Baz'', ''int x'')"
    by code_simp
  have s: "split_on CHR ''.'' ''NS.Sub.Baz'' = [''NS'', ''Sub'', ''Baz'']"
    by simp
  from parse_namespace [of "''void NS.Sub.Baz(int x)''" "''NS.Sub.Baz''" "''int x''"] h
  have "name (parseHook ''void NS.Sub.Baz(int x)'') = last (split_on CHR ''.'' ''NS.Sub.Baz'')"
    and "namespace (parseHook ''void NS.Sub.Baz(int x)'') =
        (if length (split_on CHR ''.'' ''NS.Sub.Baz'') > 1
         then Some (join ''.'' (butlast (split_on CHR ''.'' ''NS.Sub.Baz''))) else None)"
    by blast+
  then show ?thesis using h unfolding s by simp
qed

text \<open>
  C9, as stated: the name of every parse result is non-empty.  It fails for the empty input,
  whose result has the empty name, and for \<^verbatim>\<open>void NS.()\<close>, whose dotted identifier ends in a
  dot.
\<close>

theorem name_empty_counterexample:
  "name (parseHook '''') = [] \<and> name (parseHook ''void NS.()'') = []"
  by code_simp

text \<open>
  C9, amended.  Without a shape match the name is the whole cleaned input (empty for a blank
  input).  On a shape match the name is the final segment of the dotted identifier after its
  last dot; it is made of word characters only, and it is empty exactly when the dotted
  identifier, itself never empty, ends in a dot.
\<close>

theorem parse_name:
  "(methodMatch (cleanSignature sig) = None \<longrightarrow> name (parseHook sig) = cleanSignature sig)
   \<and> (methodMatch (cleanSignature sig) = Some (fullName, paramString) \<longrightarrow>
        name (parseHook sig) = last (split_on CHR ''.'' fullName)
      \<and> (\<forall>c\<in>set (name (parseHook sig)). is_word c)
      \<and> fullName \<noteq> []
      \<and> (name (parseHook sig) = [] \<longleftrightarrow> last fullName = CHR ''.''))"
proof (intro conjI impI)
  assume "methodMatch (cleanSignature sig) = None"
  then show "name (parseHook sig) = cleanSignature sig"
    by (simp add: parseHook_def)
next
  assume m: "methodMatch (cleanSignature sig) = Some (fullName, paramString)"
  then show n: "name (parseHook sig) = last (split_on CHR ''.'' fullName)"
    by (simp add: parseHook_def Let_def)
  from method_match [OF m] have f: "fullName \<noteq> []"
    and w: "\<forall>c\<in>set fullName. is_word c \<or> c = CHR ''.''"
    by blast+
  show "fullName \<noteq> []" by (rule f)
  have "last (split_on CHR ''.'' fullName) \<in> set (split_on CHR ''.'' fullName)"
    using split_on_not_Nil by simp
  then have "CHR ''.'' \<notin> set (name (parseHook sig))"
    unfolding n by (rule split_on_no_sep)
  with w set_last_split_on [of "CHR ''.''" fullName]
  show "\<forall>c\<in>set (name (parseHook sig)). is_word c"
    unfolding n by blast
  show "name (parseHook sig) = [] \<longleftrightarrow> last fullName = CHR ''.''"
    unfolding n using f by (simp add: last_split_on_Nil)
qed

theorem parse_name_witness:
  "methodMatch (cleanSignature ''not a signature'') = None
   \<and> name (parseHook ''not a signature'') = ''not a signature''
   \<and> methodMatch (cleanSignature ''void NS.Sub.Baz(int x)'') = Some (''NS.Sub.Baz'', ''int x'')
   \<and> name (parseHook ''void NS.Sub.Baz(int x)'') = ''Baz''
   \<and> is_word CHR ''B'' \<and> is_word CHR ''a'' \<and> is_word CHR ''z''
   \<and> last ''NS.Sub.Baz'' \<noteq> CHR ''.''"
proof -
  have h1: "methodMatch (cleanSignature ''not a signature'') = None"
    by code_simp
  have c1: "cleanSignature ''not a signature'' = ''not a signature''"
    by code_simp
  have h2: "methodMatch (cleanSignature ''void NS.Sub.Baz(int x)'') = Some (''NS.Sub.Baz'', ''int x'')"
    by code_simp
  from parse_name [of "''not a signature''"] h1 c1
  have n1: "name (parseHook ''not a signature'') = ''not a signature''" by simp
  from parse_name [of "''void NS.Sub.Baz(int x)''" "''NS.Sub.Baz''" "''int x''"] h2
  have "name (parseHook ''void NS.Sub.Baz(int x)'') = last (split_on CHR ''.'' ''NS.Sub.Baz'')"
    and w: "\<forall>c\<in>set (name (parseHook ''void NS.Sub.Baz(int x)'')). is_word c"
    and e: "name (parseHook ''void NS.Sub.Baz(int x)'') = [] \<longleftrightarrow> last ''NS.Sub.Baz'' = CHR ''.''"
    by blast+
  then have n2: "name (parseHook ''void NS.Sub.Baz(int x)'') = ''Baz''" by simp
  from w have "is_word CHR ''B'' \<and> is_word CHR ''a'' \<and> is_word CHR ''z''"
    unfolding n2 by simp
  moreover from e have "last ''NS.Sub.Baz'' \<noteq> CHR ''.''"
    unfolding n2 by simp
  ultimately show ?thesis using h1 n1 h2 n2 by blast
qed

text \<open>
  C10.  On a shape match, the returned parameters are the trimmed non-empty pieces of the
  parameter list split on commas, in order, where a piece that contains \<^verbatim>\<open><\<close> has every
  \<^verbatim>\<open>|\<close> replaced by a comma and a piece without \<^verbatim>\<open><\<close> is unchanged.
\<close>

theorem generic_normalization:
  assumes "methodMatch (cleanSignature sig) = Some (fullName, paramString)"
  shows "parameters (parseHook sig) =
     map (\<lambda>p. if CHR ''<'' \<in> set p then map (\<lambda>c. if c = CHR ''|'' then CHR '','' else c) p else p)
       (filter (\<lambda>p. p \<noteq> []) (map trim (split_on CHR '','' paramString)))"
  using assms by (simp add: parseHook_def Let_def parse_parameters_eq)

theorem generic_normalization_witness:
  "methodMatch (cleanSignature ''void F(List<a|b> m, int x)'') = Some (''F'', ''List<a|b> m, int x'')
   \<and> parameters (parseHook ''void F(List<a|b> m, int x)'') = [''List<a,b> m'', ''int x'']"
proof -
  have h: "methodMatch (cleanSignature ''void F(List<a|b> m, int x)'') = Some (''F'', ''List<a|b> m, int x'')"
    by code_simp
  have e: "map (\<lambda>p. if CHR ''<'' \<in> set p then map (\<lambda>c. if c = CHR ''|'' then CHR '','' else c) p else p)
       (filter (\<lambda>p. p \<noteq> []) (map trim (split_on CHR '','' ''List<a|b> m, int x''))) =
       [''List<a,b> m'', ''int x'']"
    by code_simp
  from generic_normalization [OF h]
  have "parameters (parseHook ''void F(List<a|b> m, int x)'') = [''List<a,b> m'', ''int x'']"
    unfolding e .
  with h show ?thesis by (rule conjI)
qed

section \<open>Properties of the matcher builder\<close>

lemma createRegexFromHook_head:
  "\<exists>r. createRegexFromHook hook mode = Lit ''void'' # r"
  by (simp add: createRegexFromHook_def methodStart_def Let_def)

lemma hook_occurrences_Some:
  "occurrences (createRegexFromHook hook mode) text 0 = Some (hook_occurrences hook mode text)"
proof -
  obtain r where r: "createRegexFromHook hook mode = Lit ''void'' # r"
    using createRegexFromHook_head by blast
  obtain ms where "occurrences (Lit ''void'' # r) text 0 = Some ms"
    using occurrences_total [of "CHR ''v''" "''oid''" r "text" 0] by blast
  then show ?thesis by (simp add: hook_occurrences_def r)
qed

lemma hook_occurrence_match:
  assumes "m \<in> set (hook_occurrences hook mode text)"
  shows "\<exists>n caps rest. n \<le> length text
     \<and> rmatch (createRegexFromHook hook mode) (drop n text) (drop n text) [] = Some (caps, rest)
     \<and> index m = n
     \<and> matched m = take (length text - n - length rest) (drop n text)
     \<and> groups m = caps"
proof -
  from occurrences_exec [OF hook_occurrences_Some assms] obtain j where
    "regex_exec (createRegexFromHook hook mode) text j = Some m" by blast
  from regex_exec_Some [OF this] show ?thesis by blast
qed


lemma methodStart_match:
  assumes "rmatch (methodStart ph @ r) s st caps = Some res"
  shows "\<exists>ws1 ws2 s'. s = ''void'' @ ws1 @ name ph @ ws2 @ ''('' @ s'
         \<and> ws1 \<noteq> [] \<and> (\<forall>c\<in>set ws1. is_space c) \<and> (\<forall>c\<in>set ws2. is_space c)
         \<and> rmatch r s' st caps = Some res"
proof -
  from assms have
    "rmatch (Lit ''void'' # Plus Space # Lit (name ph) # Star Space # Lit ''('' # r) s st caps
       = Some res"
    by (simp only: methodStart_def append.simps)
  from rmatch_LitD [OF this] obtain s1 where s1: "s = ''void'' @ s1"
    and m1: "rmatch (Plus Space # Lit (name ph) # Star Space # Lit ''('' # r) s1 st caps = Some res"
    by blast
  from rmatch_PlusD [OF m1] obtain ws1 s2 where s2: "s1 = ws1 @ s2"
    and ws1: "ws1 \<noteq> []" "\<forall>x\<in>set ws1. in_cls Space x"
    and m2: "rmatch (Lit (name ph) # Star Space # Lit ''('' # r) s2 st caps = Some res" by blast
  from rmatch_LitD [OF m2] obtain s3 where s3: "s2 = name ph @ s3"
    and m3: "rmatch (Star Space # Lit ''('' # r) s3 st caps = Some res" by blast
  from rmatch_StarD [OF m3] obtain ws2 s4 where s4: "s3 = ws2 @ s4"
    and ws2: "\<forall>x\<in>set ws2. in_cls Space x"
    and m4: "rmatch (Lit ''('' # r) s4 st caps = Some res" by blast
  from rmatch_LitD [OF m4] obtain s5 where s5: "s4 = ''('' @ s5"
    and m5: "rmatch r s5 st caps = Some res" by blast
  have "s = ''void'' @ ws1 @ name ph @ ws2 @ ''('' @ s5"
    unfolding s1 s2 s3 s4 s5 by simp
  with ws1 ws2 m5 show ?thesis by auto
qed

lemma closing_match:
  assumes "rmatch [Star Space, Lit '')''] s st caps = Some (caps', rest)"
  shows "\<exists>ws. s = ws @ '')'' @ rest \<and> (\<forall>c\<in>set ws. is_space c) \<and> caps' = caps"
proof -
  from rmatch_StarD [OF assms] obtain ws s1 where s1: "s = ws @ s1"
    and ws: "\<forall>x\<in>set ws. in_cls Space x"
    and m1: "rmatch [Lit '')''] s1 st caps = Some (caps', rest)" by blast
  from rmatch_LitD [OF m1] obtain s2 where s2: "s1 = '')'' @ s2"
    and m2: "rmatch [] s2 st caps = Some (caps', rest)" by blast
  from m2 have "caps' = caps" "rest = s2" by simp_all
  with s1 s2 ws show ?thesis by auto
qed

lemma permissive_match:
  assumes "rmatch (createRegexFromHook hook True) s st caps = Some (caps', rest)"
  shows "\<exists>ws1 ws2 cap.
           s = ''void'' @ ws1 @ name (parseHook hook) @ ws2 @ ''('' @ cap @ '')'' @ rest
         \<and> ws1 \<noteq> [] \<and> (\<forall>c\<in>set ws1. is_space c) \<and> (\<forall>c\<in>set ws2. is_space c)
         \<and> CHR '')'' \<notin> set cap \<and> caps' = caps @ [cap]"
proof -
  let ?tail = "[Open, Star NotRParen, Close, Lit '')'']"
  from assms have
    "rmatch (Lit ''void'' # Plus Space # Lit (name (parseHook hook)) # Star Space # Lit ''('' # ?tail)
       s st caps = Some (caps', rest)"
    by (simp add: createRegexFromHook_def methodStart_def)
  from rmatch_LitD [OF this] obtain s1 where s1: "s = ''void'' @ s1"
    and m1: "rmatch (Plus Space # Lit (name (parseHook hook)) # Star Space # Lit ''('' # ?tail)
       s1 st caps = Some (caps', rest)" by blast
  from rmatch_PlusD [OF m1] obtain ws1 s2 where s2: "s1 = ws1 @ s2"
    and ws1: "ws1 \<noteq> []" "\<forall>x\<in>set ws1. in_cls Space x"
    and m2: "rmatch (Lit (name (parseHook hook)) # Star Space # Lit ''('' # ?tail)
       s2 st caps = Some (caps', rest)" by blast
  from rmatch_LitD [OF m2] obtain s3 where s3: "s2 = name (parseHook hook) @ s3"
    and m3: "rmatch (Star Space # Lit ''('' # ?tail) s3 st caps = Some (caps', rest)" by blast
  from rmatch_StarD [OF m3] obtain ws2 s4 where s4: "s3 = ws2 @ s4"
    and ws2: "\<forall>x\<in>set ws2. in_cls Space x"
    and m4: "rmatch (Lit ''('' # ?tail) s4 st caps = Some (caps', rest)" by blast
  from rmatch_LitD [OF m4] obtain s5 where s5: "s4 = ''('' @ s5"
    and m5: "rmatch ?tail s5 st caps = Some (caps', rest)" by blast
  from rmatch_group_StarD [OF m5] obtain cap s6 where s6: "s5 = cap @ s6"
    and cap: "\<forall>x\<in>set cap. in_cls NotRParen x"
    and m6: "rmatch [Lit '')''] s6 s5 (caps @ [cap]) = Some (caps', rest)" by blast
  from rmatch_LitD [OF m6] obtain s7 where s7: "s6 = '')'' @ s7"
    and m7: "rmatch [] s7 s5 (caps @ [cap]) = Some (caps', rest)" by blast
  from m7 have e: "caps' = caps @ [cap]" "rest = s7" by simp_all
  have "s = ''void'' @ ws1 @ name (parseHook hook) @ ws2 @ ''('' @ cap @ '')'' @ rest"
    unfolding s1 s2 s3 s4 s5 s6 s7 e by simp
  moreover from cap have "CHR '')'' \<notin> set cap" by auto
  ultimately show ?thesis using ws1 ws2 e by auto
qed

lemma one_param_match:
  assumes "rmatch (Lit ty # Plus Space # Plus Word # r) s st caps = Some res"
  shows "\<exists>sp ident s'. s = ty @ sp @ ident @ s' \<and> sp \<noteq> [] \<and> (\<forall>c\<in>set sp. is_space c)
           \<and> ident \<noteq> [] \<and> (\<forall>c\<in>set ident. is_word c) \<and> rmatch r s' st caps = Some res"
proof -
  from rmatch_LitD [OF assms] obtain s1 where s1: "s = ty @ s1"
    and m1: "rmatch (Plus Space # Plus Word # r) s1 st caps = Some res" by blast
  from rmatch_PlusD [OF m1] obtain sp s2 where s2: "s1 = sp @ s2"
    and sp: "sp \<noteq> []" "\<forall>x\<in>set sp. in_cls Space x"
    and m2: "rmatch (Plus Word # r) s2 st caps = Some res" by blast
  from rmatch_PlusD [OF m2] obtain ident s3 where s3: "s2 = ident @ s3"
    and ident: "ident \<noteq> []" "\<forall>x\<in>set ident. in_cls Word x"
    and m3: "rmatch r s3 st caps = Some res" by blast
  have "s = ty @ sp @ ident @ s3" unfolding s1 s2 s3 by simp
  with sp ident m3 show ?thesis by auto
qed

lemma paramPattern_match:
  "rmatch (paramPattern (p # ps) @ r) s st caps = Some res \<Longrightarrow>
   \<exists>args s'. s = args @ s' \<and> param_list_text (p # ps) args \<and> rmatch r s' st caps = Some res"
proof (induction ps arbitrary: p s)
  case Nil
  then have "rmatch (Lit (hd (split_on CHR '' '' p)) # Plus Space # Plus Word # r) s st caps = Some res"
    by (simp add: paramPattern_def)
  from one_param_match [OF this] obtain sp ident s' where
    "s = hd (split_on CHR '' '' p) @ sp @ ident @ s'" "sp \<noteq> []" "\<forall>c\<in>set sp. is_space c"
    "ident \<noteq> []" "\<forall>c\<in>set ident. is_word c" "rmatch r s' st caps = Some res" by blast
  then show ?case
    by (intro exI [of _ "hd (split_on CHR '' '' p) @ sp @ ident"] exI [of _ s'])
       (simp add: last_param)
next
  case (Cons q ps)
  let ?r' = "Star Space # Lit '','' # Star Space # (paramPattern (q # ps) @ r)"
  from Cons.prems
  have "rmatch (Lit (hd (split_on CHR '' '' p)) # Plus Space # Plus Word # ?r') s st caps = Some res"
    by (simp add: paramPattern_def)
  from one_param_match [OF this] obtain sp ident s1 where
    s1: "s = hd (split_on CHR '' '' p) @ sp @ ident @ s1"
    and a: "sp \<noteq> []" "\<forall>c\<in>set sp. is_space c" "ident \<noteq> []" "\<forall>c\<in>set ident. is_word c"
    and m1: "rmatch ?r' s1 st caps = Some res" by blast
  from rmatch_StarD [OF m1] obtain w1 s2 where s2: "s1 = w1 @ s2"
    and w1: "\<forall>x\<in>set w1. in_cls Space x"
    and m2: "rmatch (Lit '','' # Star Space # (paramPattern (q # ps) @ r)) s2 st caps = Some res"
    by blast
  from rmatch_LitD [OF m2] obtain s3 where s3: "s2 = '','' @ s3"
    and m3: "rmatch (Star Space # (paramPattern (q # ps) @ r)) s3 st caps = Some res" by blast
  from rmatch_StarD [OF m3] obtain w2 s4 where s4: "s3 = w2 @ s4"
    and w2: "\<forall>x\<in>set w2. in_cls Space x"
    and m4: "rmatch (paramPattern (q # ps) @ r) s4 st caps = Some res" by blast
  from Cons.IH [OF m4] obtain t s' where s': "s4 = t @ s'"
    and t: "param_list_text (q # ps) t" and m5: "rmatch r s' st caps = Some res" by blast
  have "s = (hd (split_on CHR '' '' p) @ sp @ ident @ w1 @ '','' @ w2 @ t) @ s'"
    unfolding s1 s2 s3 s4 s' by simp
  moreover have "param_list_text (p # q # ps)
      (hd (split_on CHR '' '' p) @ sp @ ident @ w1 @ '','' @ w2 @ t)"
    using a w1 w2 t by (intro next_param) simp_all
  ultimately show ?case using m5 by blast
qed

lemma strict_match:
  assumes "rmatch (createRegexFromHook hook False) s st caps = Some (caps', rest)"
  shows "\<exists>ws1 ws2 ws3 args ws4.
           s = ''void'' @ ws1 @ name (parseHook hook) @ ws2 @ ''('' @ ws3 @ args @ ws4 @ '')'' @ rest
         \<and> ws1 \<noteq> [] \<and> (\<forall>c\<in>set ws1. is_space c) \<and> (\<forall>c\<in>set ws2. is_space c)
         \<and> (\<forall>c\<in>set ws3. is_space c) \<and> (\<forall>c\<in>set ws4. is_space c)
         \<and> param_list_text (parameters (parseHook hook)) args \<and> caps' = caps"
proof (cases "parameters (parseHook hook)")
  case Nil
  then have "createRegexFromHook hook False = methodStart (parseHook hook) @ [Star Space, Lit '')'']"
    by (simp add: createRegexFromHook_def Let_def)
  with assms have "rmatch (methodStart (parseHook hook) @ [Star Space, Lit '')'']) s st caps
      = Some (caps', rest)" by simp
  from methodStart_match [OF this] obtain ws1 ws2 s1 where
    s1: "s = ''void'' @ ws1 @ name (parseHook hook) @ ws2 @ ''('' @ s1"
    and w: "ws1 \<noteq> []" "\<forall>c\<in>set ws1. is_space c" "\<forall>c\<in>set ws2. is_space c"
    and m1: "rmatch [Star Space, Lit '')''] s1 st caps = Some (caps', rest)" by blast
  from closing_match [OF m1] obtain ws3 where s2: "s1 = ws3 @ '')'' @ rest"
    and w3: "\<forall>c\<in>set ws3. is_space c" and e: "caps' = caps" by blast
  have "s = ''void'' @ ws1 @ name (parseHook hook) @ ws2 @ ''('' @ ws3 @ [] @ [] @ '')'' @ rest"
    unfolding s1 s2 by simp
  moreover have "param_list_text (parameters (parseHook hook)) []"
    unfolding Nil by (rule no_params)
  moreover have "\<forall>c\<in>set ([] :: string). is_space c" by simp
  ultimately show ?thesis using w w3 e by blast
next
  case (Cons p ps)
  then have "createRegexFromHook hook False =
      methodStart (parseHook hook) @ (Star Space # (paramPattern (p # ps) @ [Star Space, Lit '')'']))"
    by (simp add: createRegexFromHook_def Let_def)
  with assms have "rmatch (methodStart (parseHook hook) @
      (Star Space # (paramPattern (p # ps) @ [Star Space, Lit '')'']))) s st caps
      = Some (caps', rest)" by simp
  from methodStart_match [OF this] obtain ws1 ws2 s1 where
    s1: "s = ''void'' @ ws1 @ name (parseHook hook) @ ws2 @ ''('' @ s1"
    and w: "ws1 \<noteq> []" "\<forall>c\<in>set ws1. is_space c" "\<forall>c\<in>set ws2. is_space c"
    and m1: "rmatch (Star Space # (paramPattern (p # ps) @ [Star Space, Lit '')''])) s1 st caps
        = Some (caps', rest)" by blast
  from rmatch_StarD [OF m1] obtain ws3 s2 where s2: "s1 = ws3 @ s2"
    and w3: "\<forall>x\<in>set ws3. in_cls Space x"
    and m2: "rmatch (paramPattern (p # ps) @ [Star Space, Lit '')'']) s2 st caps
        = Some (caps', rest)" by blast
  from paramPattern_match [OF m2] obtain args s3 where s3: "s2 = args @ s3"
    and args: "param_list_text (p # ps) args"
    and m3: "rmatch [Star Space, Lit '')''] s3 st caps = Some (caps', rest)" by blast
  from closing_match [OF m3] obtain ws4 where s4: "s3 = ws4 @ '')'' @ rest"
    and w4: "\<forall>c\<in>set ws4. is_space c" and e: "caps' = caps" by blast
  have "s = ''void'' @ ws1 @ name (parseHook hook) @ ws2 @ ''('' @ ws3 @ args @ ws4 @ '')'' @ rest"
    unfolding s1 s2 s3 s4 by simp
  moreover from args have "param_list_text (parameters (parseHook hook)) args"
    unfolding Cons .
  moreover from w3 have "\<forall>c\<in>set ws3. is_space c" by simp
  ultimately show ?thesis using w w4 e by blast
qed

text \<open>
  C6.  Every occurrence the strict pattern of a hook finds reads: \<^verbatim>\<open>void\<close>, whitespace, the
  hook's name, optional whitespace, an opening parenthesis, and between the parentheses, with
  optional whitespace at both ends, each parsed parameter's type token followed by whitespace
  and an identifier, the positions joined by optionally-spaced commas.  The strict pattern of
  \<^verbatim>\<open>void Foo(int x)\<close> finds the one occurrence \<^verbatim>\<open>void Foo(int a)\<close> in the text
  \<^verbatim>\<open>void Foo(int a)\<close>, and none in \<^verbatim>\<open>void Foo(string a)\<close>.
\<close>

theorem strict_matcher:
  "(m \<in> set (hook_occurrences hook False text) \<longrightarrow>
      (\<exists>ws1 ws2 ws3 args ws4.
          matched m =
            ''void'' @ ws1 @ name (parseHook hook) @ ws2 @ ''('' @ ws3 @ args @ ws4 @ '')''
        \<and> ws1 \<noteq> [] \<and> (\<forall>c\<in>set (ws1 @ ws2 @ ws3 @ ws4). is_space c)
        \<and> param_list_text (parameters (parseHook hook)) args))
   \<and> hook_occurrences ''void Foo(int x)'' False ''void Foo(int a)'' =
       [\<lparr>index = 0, matched = ''void Foo(int a)'', groups = []\<rparr>]
   \<and> hook_occurrences ''void Foo(int x)'' False ''void Foo(string a)'' = []"
proof (intro conjI impI)
  assume "m \<in> set (hook_occurrences hook False text)"
  from hook_occurrence_match [OF this] obtain caps rest where
    r: "rmatch (createRegexFromHook hook False) (drop (index m) text) (drop (index m) text) []
          = Some (caps, rest)"
    and t: "matched m = take (length text - index m - length rest) (drop (index m) text)"
    by blast
  from strict_match [OF r] obtain ws1 ws2 ws3 args ws4 where
    d: "drop (index m) text =
          ''void'' @ ws1 @ name (parseHook hook) @ ws2 @ ''('' @ ws3 @ args @ ws4 @ '')'' @ rest"
    and w: "ws1 \<noteq> []" "\<forall>c\<in>set ws1. is_space c" "\<forall>c\<in>set ws2. is_space c"
      "\<forall>c\<in>set ws3. is_space c" "\<forall>c\<in>set ws4. is_space c"
    and a: "param_list_text (parameters (parseHook hook)) args"
    by blast
  let ?pre = "''void'' @ ws1 @ name (parseHook hook) @ ws2 @ ''('' @ ws3 @ args @ ws4 @ '')''"
  have d': "drop (index m) text = ?pre @ rest" using d by simp
  have "length (drop (index m) text) = length ?pre + length rest"
    unfolding d' by (simp only: length_append)
  then have l: "length text - index m - length rest = length ?pre" by simp
  have mm: "matched m = ?pre"
    unfolding t l d' by simp
  from w have "\<forall>c\<in>set (ws1 @ ws2 @ ws3 @ ws4). is_space c" by auto
  with mm w(1) a show "\<exists>ws1 ws2 ws3 args ws4.
          matched m =
            ''void'' @ ws1 @ name (parseHook hook) @ ws2 @ ''('' @ ws3 @ args @ ws4 @ '')''
        \<and> ws1 \<noteq> [] \<and> (\<forall>c\<in>set (ws1 @ ws2 @ ws3 @ ws4). is_space c)
        \<and> param_list_text (parameters (parseHook hook)) args"
    by blast
next
  show "hook_occurrences ''void Foo(int x)'' False ''void Foo(int a)'' =
       [\<lparr>index = 0, matched = ''void Foo(int a)'', groups = []\<rparr>]"
    by code_simp
next
  show "hook_occurrences ''void Foo(int x)'' False ''void Foo(string a)'' = []"
    by code_simp
qed

theorem strict_matcher_witness:
  "\<lparr>index = 0, matched = ''void Foo(int a)'', groups = []\<rparr>
     \<in> set (hook_occurrences ''void Foo(int x)'' False ''void Foo(int a)'')
   \<and> (\<exists>ws1 ws2 ws3 args ws4.
        ''void Foo(int a)'' =
          ''void'' @ ws1 @ name (parseHook ''void Foo(int x)'') @ ws2 @ ''('' @ ws3 @ args @ ws4 @ '')''
      \<and> param_list_text (parameters (parseHook ''void Foo(int x)'')) args)"
proof -
  let ?m = "\<lparr>index = 0, matched = ''void Foo(int a)'', groups = []\<rparr>"
  note t = strict_matcher [of ?m "''void Foo(int x)''" "''void Foo(int a)''"]
  from t have h: "?m \<in> set (hook_occurrences ''void Foo(int x)'' False ''void Foo(int a)'')"
    by simp
  with t obtain ws1 ws2 ws3 args ws4 where
    "matched ?m =
       ''void'' @ ws1 @ name (parseHook ''void Foo(int x)'') @ ws2 @ ''('' @ ws3 @ args @ ws4 @ '')''"
    "param_list_text (parameters (parseHook ''void Foo(int x)'')) args" by blast
  then have "\<exists>ws1 ws2 ws3 args ws4.
        ''void Foo(int a)'' =
          ''void'' @ ws1 @ name (parseHook ''void Foo(int x)'') @ ws2 @ ''('' @ ws3 @ args @ ws4 @ '')''
      \<and> param_list_text (parameters (parseHook ''void Foo(int x)'')) args"
    by (simp only: rmatch_result.simps) blast
  with h show ?thesis by (rule conjI)
qed

text \<open>
  C7.  Every occurrence the permissive pattern of a hook finds reads: \<^verbatim>\<open>void\<close>, whitespace,
  the hook's name, optional whitespace, an opening parenthesis, a text without closing
  parenthesis, a closing parenthesis; that text, whatever its shape, is the single capture
  group.  The permissive pattern of \<^verbatim>\<open>void Foo(int x)\<close> finds exactly one occurrence in
  \<^verbatim>\<open>void Foo(int a, int b) { }\<close>, and its captured parameter text is \<^verbatim>\<open>int a, int b\<close>.
\<close>

theorem permissive_capture:
  "(m \<in> set (hook_occurrences hook True text) \<longrightarrow>
      (\<exists>ws1 ws2 cap.
          matched m = ''void'' @ ws1 @ name (parseHook hook) @ ws2 @ ''('' @ cap @ '')''
        \<and> ws1 \<noteq> [] \<and> (\<forall>c\<in>set ws1. is_space c) \<and> (\<forall>c\<in>set ws2. is_space c)
        \<and> CHR '')'' \<notin> set cap \<and> groups m = [cap]
        \<and> take (length (matched m)) (drop (index m) text) = matched m))
   \<and> hook_occurrences ''void Foo(int x)'' True ''void Foo(int a, int b) { }'' =
       [\<lparr>index = 0, matched = ''void Foo(int a, int b)'', groups = [''int a, int b'']\<rparr>]"
proof (intro conjI impI)
  assume "m \<in> set (hook_occurrences hook True text)"
  from hook_occurrence_match [OF this] obtain caps rest where
    r: "rmatch (createRegexFromHook hook True) (drop (index m) text) (drop (index m) text) []
          = Some (caps, rest)"
    and t: "matched m = take (length text - index m - length rest) (drop (index m) text)"
    and g: "groups m = caps"
    by blast
  from permissive_match [OF r] obtain ws1 ws2 cap where
    d: "drop (index m) text =
          ''void'' @ ws1 @ name (parseHook hook) @ ws2 @ ''('' @ cap @ '')'' @ rest"
    and w: "ws1 \<noteq> []" "\<forall>c\<in>set ws1. is_space c" "\<forall>c\<in>set ws2. is_space c"
      "CHR '')'' \<notin> set cap"
    and c: "caps = [] @ [cap]"
    by blast
  let ?pre = "''void'' @ ws1 @ name (parseHook hook) @ ws2 @ ''('' @ cap @ '')''"
  have d': "drop (index m) text = ?pre @ rest" using d by simp
  have "length (drop (index m) text) = length ?pre + length rest"
    unfolding d' by (simp only: length_append)
  then have l: "length text - index m - length rest = length ?pre" by simp
  have mm: "matched m = ?pre"
    unfolding t l d' by simp
  have "take (length (matched m)) (drop (index m) text) = matched m"
    unfolding mm d' by simp
  with mm w g c show "\<exists>ws1 ws2 cap.
          matched m = ''void'' @ ws1 @ name (parseHook hook) @ ws2 @ ''('' @ cap @ '')''
        \<and> ws1 \<noteq> [] \<and> (\<forall>c\<in>set ws1. is_space c) \<and> (\<forall>c\<in>set ws2. is_space c)
        \<and> CHR '')'' \<notin> set cap \<and> groups m = [cap]
        \<and> take (length (matched m)) (drop (index m) text) = matched m"
    by (intro exI [of _ ws1] exI [of _ ws2] exI [of _ cap]) simp
next
  show "hook_occurrences ''void Foo(int x)'' True ''void Foo(int a, int b) { }'' =
       [\<lparr>index = 0, matched = ''void Foo(int a, int b)'', groups = [''int a, int b'']\<rparr>]"
    by code_simp
qed

theorem permissive_capture_witness:
  "\<lparr>index = 0, matched = ''void Foo(int a, int b)'', groups = [''int a, int b'']\<rparr>
     \<in> set (hook_occurrences ''void Foo(int x)'' True ''void Foo(int a, int b) { }'')
   \<and> (\<exists>ws1 ws2. ''void Foo(int a, int b)'' =
          ''void'' @ ws1 @ name (parseHook ''void Foo(int x)'') @ ws2 @ ''('' @ ''int a, int b'' @ '')'')"
proof -
  let ?m = "\<lparr>index = 0, matched = ''void Foo(int a, int b)'', groups = [''int a, int b'']\<rparr>"
  note t = permissive_capture [of ?m "''void Foo(int x)''" "''void Foo(int a, int b) { }''"]
  from t have h: "?m \<in> set (hook_occurrences ''void Foo(int x)'' True ''void Foo(int a, int b) { }'')"
    by simp
  with t obtain ws1 ws2 cap where
    "matched ?m = ''void'' @ ws1 @ name (parseHook ''void Foo(int x)'') @ ws2 @ ''('' @ cap @ '')''"
    "groups ?m = [cap]" by blast
  then have "''void Foo(int a, int b)'' =
      ''void'' @ ws1 @ name (parseHook ''void Foo(int x)'') @ ws2 @ ''('' @ ''int a, int b'' @ '')''"
    by simp
  with h show ?thesis by blast
qed

section \<open>Properties of the analysis pass\<close>

lemma process_deprecated_eq:
  "process_deprecated positionAt text entries diagnostics =
     Some (diagnostics @ concat (map (\<lambda>(oldHook, newHook).
        map (deprecated_diagnostic positionAt oldHook newHook)
          (hook_occurrences oldHook False text)) entries))"
proof (induction entries arbitrary: diagnostics)
  case Nil
  show ?case by simp
next
  case (Cons e entries)
  obtain oldHook newHook where e: "e = (oldHook, newHook)" by (cases e)
  show ?case
    unfolding e
    by (simp add: deprecated_loop_eq [OF hook_occurrences_Some] Cons.IH)
qed

lemma process_valid_eq:
  "process_valid positionAt text hooks (diagnostics, validHookRanges) =
     Some (diagnostics @ concat (map (\<lambda>hook.
              map (missing_diagnostic positionAt hook)
                (filter (\<lambda>m. paramCount m < length (parameters (parseHook hook)))
                  (hook_occurrences hook True text))) hooks),
           validHookRanges @ concat (map (\<lambda>hook.
              map (match_range positionAt) (hook_occurrences hook True text)) hooks))"
proof (induction hooks arbitrary: diagnostics validHookRanges)
  case Nil
  show ?case by simp
next
  case (Cons hook hooks)
  show ?case
    by (simp add: valid_loop_eq [OF hook_occurrences_Some] Cons.IH)
qed

lemma analyzeDocument_csharp:
  "analyzeDocument positionAt ''csharp'' text deprecatedHooks validHooks =
     Some (Published
       (concat (map (\<lambda>(oldHook, newHook).
            map (deprecated_diagnostic positionAt oldHook newHook)
              (hook_occurrences oldHook False text)) deprecatedHooks)
        @ concat (map (\<lambda>hook.
            map (missing_diagnostic positionAt hook)
              (filter (\<lambda>m. paramCount m < length (parameters (parseHook hook)))
                (hook_occurrences hook True text))) validHooks))
       (concat (map (\<lambda>hook.
            map (match_range positionAt) (hook_occurrences hook True text)) validHooks)))"
  by (simp add: analyzeDocument_def process_deprecated_eq process_valid_eq)

text \<open>
  C2, as stated: every occurrence of a deprecated hook that the permissive pattern finds
  gets an error diagnostic.  For the deprecated entry \<^verbatim>\<open>void Foo(int x)\<close> and the text
  \<^verbatim>\<open>void Foo(string a)\<close> the permissive pattern finds an occurrence, and the pass emits no
  diagnostic.
\<close>

theorem deprecated_pass_not_permissive:
  "hook_occurrences ''void Foo(int x)'' True ''void Foo(string a)'' =
     [\<lparr>index = 0, matched = ''void Foo(string a)'', groups = [''string a'']\<rparr>]
   \<and> analyzeDocument id ''csharp'' ''void Foo(string a)''
       [(''void Foo(int x)'', ''void Bar(int x)'')] [] = Some (Published [] [])"
  by code_simp

text \<open>
  C2, amended.  For every deprecated-hook catalog entry, the pass locates its occurrences
  with the strict pattern, and for every occurrence so found, in catalog order and then text
  order, it emits an error-severity diagnostic whose message names the deprecated signature
  and, when the replacement is non-empty, says to use the replacement, and otherwise says
  that no direct replacement is available.  These are the first diagnostics of the pass; the
  ones after them come from the valid hooks.
\<close>

theorem deprecated_pass_strict:
  "process_deprecated positionAt text deprecatedHooks diagnostics =
     Some (diagnostics @ concat (map (\<lambda>(oldHook, newHook).
        map (deprecated_diagnostic positionAt oldHook newHook)
          (hook_occurrences oldHook False text)) deprecatedHooks))
   \<and> (\<exists>warnings validHookRanges.
        analyzeDocument positionAt ''csharp'' text deprecatedHooks validHooks =
          Some (Published
            (concat (map (\<lambda>(oldHook, newHook).
                map (deprecated_diagnostic positionAt oldHook newHook)
                  (hook_occurrences oldHook False text)) deprecatedHooks) @ warnings)
            validHookRanges))
   \<and> severity (deprecated_diagnostic positionAt oldHook newHook m) = Error
   \<and> message (deprecated_diagnostic positionAt oldHook newHook m) =
       ''Hook '' @ [CHR 0x22] @ oldHook @ [CHR 0x22] @ '' is deprecated.'' @ [CHR 0x0A] @
       (if newHook = [] then ''No direct replacement available.''
        else ''Use '' @ [CHR 0x22] @ newHook @ [CHR 0x22] @ '' instead.'')"
  by (simp add: process_deprecated_eq analyzeDocument_csharp deprecated_diagnostic_def
      deprecated_message_def)

lemma paramCount_commas:
  "paramCount m =
     (if trim (groups m ! 0) = [] then 0 else Suc (count_list (groups m ! 0) CHR '',''))"
proof -
  have "\<not> is_space CHR '',''" by (simp add: is_space_def)
  then show ?thesis
    by (simp add: paramCount_def Let_def length_split_on count_list_trim)
qed

text \<open>
  C3.  The pass takes as actual parameter count the number of pieces of the trimmed
  captured text between all its commas, empty pieces and commas inside angle brackets
  included.  For the valid hook \<^verbatim>\<open>void Foo(int x, int y)\<close> and the text \<^verbatim>\<open>void Foo(int a,)\<close>
  the captured text \<^verbatim>\<open>int a,\<close> counts as 2, where \<open>parseHook\<close> finds the one parameter
  \<^verbatim>\<open>int a\<close> in the same parameter list, and the pass emits no missing-parameter diagnostic
  against the two expected parameters.  The captured texts \<^verbatim>\<open>Dictionary<string, int> map\<close>
  and \<^verbatim>\<open>a,\<close> count as 2 each, where the non-empty pieces between top-level commas give 1.
\<close>

theorem paramCount_counts_every_piece:
  "hook_occurrences ''void Foo(int x, int y)'' True ''void Foo(int a,)'' =
     [\<lparr>index = 0, matched = ''void Foo(int a,)'', groups = [''int a,'']\<rparr>]
   \<and> paramCount \<lparr>index = 0, matched = ''void Foo(int a,)'', groups = [''int a,'']\<rparr> = 2
   \<and> parameters (parseHook ''void Foo(int a,)'') = [''int a'']
   \<and> parameters (parseHook ''void Foo(int x, int y)'') = [''int x'', ''int y'']
   \<and> analyzeDocument id ''csharp'' ''void Foo(int a,)'' [] [''void Foo(int x, int y)''] =
       Some (Published [] [(0, 16)])
   \<and> hook_occurrences ''void Foo(int x)'' True ''void Foo(Dictionary<string, int> map)'' =
       [\<lparr>index = 0, matched = ''void Foo(Dictionary<string, int> map)'',
         groups = [''Dictionary<string, int> map'']\<rparr>]
   \<and> paramCount \<lparr>index = 0, matched = ''void Foo(Dictionary<string, int> map)'',
         groups = [''Dictionary<string, int> map'']\<rparr> = 2
   \<and> hook_occurrences ''void Foo(int x)'' True ''void Foo(a,)'' =
       [\<lparr>index = 0, matched = ''void Foo(a,)'', groups = [''a,'']\<rparr>]
   \<and> paramCount \<lparr>index = 0, matched = ''void Foo(a,)'', groups = [''a,'']\<rparr> = 2"
  by code_simp



end
